theory Spec2Isabelle
  imports Main "HOL-Library.Sublist" "HOL-Library.Multiset"
begin

section \<open>SimpleEditor.tsx: data model\<close>

text \<open>
  The development follows \<^verbatim>\<open>src/components/SimpleEditor.tsx\<close>. JavaScript strings are
  modelled as \<^typ>\<open>string\<close>. A JavaScript object used as a dictionary is a map; where the
  code enumerates its keys (\<^verbatim>\<open>for ... in\<close>) the object is given as the list of its own
  entries in enumeration order, whose keys are pairwise different.

  \<^verbatim>\<open>EditorDocument\<close> is imported by the source; its properties, as the source uses them,
  are \<^verbatim>\<open>filePath\<close>, \<^verbatim>\<open>loading\<close>, \<^verbatim>\<open>value\<close> and \<^verbatim>\<open>scroll\<close>. At run time a property of an
  object may be absent (the spread of \<^verbatim>\<open>undefined\<close> is the empty object), so each
  property is optional in the model. The type \<^verbatim>\<open>ScrollPosition\<close> is imported as well and
  never inspected: it is the type parameter \<open>'s\<close>.
\<close>

record 's EditorDocument =
  filePath :: "string option"
  loading :: "bool option"
  "value" :: "string option"
  scroll :: "'s option"

text \<open>
  \<^verbatim>\<open>FileSystemTree\<close> of the container API: an object from names to nodes, a node being
  \<^verbatim>\<open>{ file: { contents } }\<close> or \<^verbatim>\<open>{ directory: FileSystemTree }\<close>. Equality of maps is
  structural equality of the objects, whatever the order of their keys.

  The trees of the code are plain objects, created as \<^verbatim>\<open>{}\<close>: what \<^verbatim>\<open>tree[name]\<close> gives is
  the own property of that name or, without one, what the prototype chain has under the
  name. The map holds the own properties. The entry of the map at \<^verbatim>\<open>__proto__\<close> stands for
  the prototype of the object: \<open>None\<close> for \<^verbatim>\<open>Object.prototype\<close>, which every tree starts
  with, and the node assigned to \<^verbatim>\<open>tree['__proto__']\<close> otherwise, since that assignment
  does not create a property but replaces the prototype, and reading
  \<^verbatim>\<open>tree['__proto__']\<close> gives the prototype back.
\<close>

datatype node =
    FileNode (contents: "string option")
  | DirectoryNode (directory: "string \<Rightarrow> node option")

type_synonym FileSystemTree = "string \<Rightarrow> node option"

datatype error = TypeError

text \<open>
  The properties of \<^verbatim>\<open>Object.prototype\<close> (ECMAScript, with its annex for browsers). Each
  of them is truthy when read from a plain object: eleven functions, and under
  \<^verbatim>\<open>__proto__\<close> the prototype itself.
\<close>

definition Object_prototype_names :: "string list" where
  "Object_prototype_names =
     [''constructor'', ''hasOwnProperty'', ''isPrototypeOf'', ''propertyIsEnumerable'',
      ''toLocaleString'', ''toString'', ''valueOf'', ''__defineGetter__'',
      ''__defineSetter__'', ''__lookupGetter__'', ''__lookupSetter__'', ''__proto__'']"

text \<open>
  A name the tree has no own property for and still finds on its prototype chain: a
  property of \<^verbatim>\<open>Object.prototype\<close>, or \<^verbatim>\<open>file\<close> once the prototype has been replaced by a
  file node \<^verbatim>\<open>{ file: ... }\<close>. (The builder never stores a directory node under
  \<^verbatim>\<open>__proto__\<close>: it creates a directory only where the lookup is falsy, and the lookup of
  \<^verbatim>\<open>__proto__\<close> never is.)
\<close>

definition inherited :: "(string \<Rightarrow> node option) \<Rightarrow> string \<Rightarrow> bool" where
  "inherited tree name =
     (name \<in> set Object_prototype_names \<or>
      (name = ''file'' \<and>
       (case tree ''__proto__'' of
          Some (FileNode c) \<Rightarrow> True
        | Some (DirectoryNode d) \<Rightarrow> False
        | None \<Rightarrow> False)))"

section \<open>toFileTree\<close>

text \<open>\<^verbatim>\<open>filePath.split('/')\<close>: the pieces between the separators; never the empty list.\<close>

fun split :: "char \<Rightarrow> string \<Rightarrow> string list" where
  "split sep [] = [[]]"
| "split sep (c # cs) =
     (if c = sep then [] # split sep cs
      else (case split sep cs of
              [] \<Rightarrow> [[c]]
            | w # ws \<Rightarrow> (c # w) # ws))"

text \<open>\<^verbatim>\<open>filePath.split('/').filter((segment) => segment)\<close>: the empty string is the only
  falsy string.\<close>

definition segments :: "string \<Rightarrow> string list" where
  "segments path = filter (\<lambda>segment. segment \<noteq> []) (split CHR ''/'' path)"

text \<open>
  The inner loop over \<^verbatim>\<open>segments\<close>, started at \<^verbatim>\<open>currentTree\<close>. The source updates the
  tree in place; no object of the tree is shared, so the model returns the updated tree.
  With no segment the loop body never runs. At the last segment the entry is assigned a
  file node, whatever was there (under \<^verbatim>\<open>__proto__\<close> the assignment replaces the
  prototype, which is what the entry of the map at that name stands for). Before the
  last segment, \<^verbatim>\<open>currentTree[name]\<close> is read. When it is falsy (no own property and
  nothing inherited) the entry gets a fresh directory. Otherwise what was read is taken
  as a directory node: for a file node, and for anything inherited (a function of
  \<^verbatim>\<open>Object.prototype\<close>, a prototype, the \<^verbatim>\<open>file\<close> of a replaced prototype),
  \<^verbatim>\<open>folder.directory\<close> is \<^verbatim>\<open>undefined\<close>, and the next iteration (there is one, the segment
  not being the last) reads or writes a property of \<^verbatim>\<open>undefined\<close>, which throws a
  \<^verbatim>\<open>TypeError\<close> that leaves \<^verbatim>\<open>toFileTree\<close>.
\<close>

fun insertFile :: "FileSystemTree \<Rightarrow> string list \<Rightarrow> string option \<Rightarrow> error + FileSystemTree" where
  "insertFile currentTree [] v = Inr currentTree"
| "insertFile currentTree [name] v = Inr (currentTree(name \<mapsto> FileNode v))"
| "insertFile currentTree (name # next # rest) v =
     (case currentTree name of
        None \<Rightarrow>
          (if inherited currentTree name then Inl TypeError
           else (case insertFile Map.empty (next # rest) v of
                   Inl e \<Rightarrow> Inl e
                 | Inr d \<Rightarrow> Inr (currentTree(name \<mapsto> DirectoryNode d))))
      | Some (DirectoryNode folder) \<Rightarrow>
          (case insertFile folder (next # rest) v of
             Inl e \<Rightarrow> Inl e
           | Inr d \<Rightarrow> Inr (currentTree(name \<mapsto> DirectoryNode d)))
      | Some (FileNode c) \<Rightarrow> Inl TypeError)"

text \<open>One round of the outer loop; an exception thrown in an earlier round has ended
  the function.\<close>

definition addFile ::
  "string \<times> 's EditorDocument \<Rightarrow> error + FileSystemTree \<Rightarrow> error + FileSystemTree" where
  "addFile entry acc =
     (case acc of
        Inl e \<Rightarrow> Inl e
      | Inr root \<Rightarrow> insertFile root (segments (fst entry)) (value (snd entry)))"

definition toFileTree :: "(string \<times> 's EditorDocument) list \<Rightarrow> error + FileSystemTree" where
  "toFileTree files = fold addFile files (Inr Map.empty)"

text \<open>A document with the given content and no other property.\<close>

definition doc :: "string \<Rightarrow> 's EditorDocument" where
  "doc v = \<lparr>filePath = None, loading = None, value = Some v, scroll = None\<rparr>"

text \<open>Some nonempty initial part of the path is a file of the tree: the loop would leave
  the tree there.\<close>

fun file_on_path :: "FileSystemTree \<Rightarrow> string list \<Rightarrow> bool" where
  "file_on_path t [] = False"
| "file_on_path t (name # rest) =
     (case t name of
        None \<Rightarrow> False
      | Some (FileNode c) \<Rightarrow> True
      | Some (DirectoryNode d) \<Rightarrow> file_on_path d rest)"

text \<open>The tree the loop continues in after a segment that is not the last.\<close>

definition enter :: "FileSystemTree \<Rightarrow> string \<Rightarrow> error + FileSystemTree" where
  "enter t name =
     (case t name of
        None \<Rightarrow> (if inherited t name then Inl TypeError else Inr Map.empty)
      | Some (DirectoryNode d) \<Rightarrow> Inr d
      | Some (FileNode c) \<Rightarrow> Inl TypeError)"

text \<open>An insertion on the result of the rounds before it, and a directory put back under
  its name: how a failure passes through the two loops.\<close>

definition ins ::
  "string list \<Rightarrow> string option \<Rightarrow> error + FileSystemTree \<Rightarrow> error + FileSystemTree" where
  "ins p v acc = (case acc of Inl e \<Rightarrow> Inl e | Inr t \<Rightarrow> insertFile t p v)"

definition upd ::
  "FileSystemTree \<Rightarrow> string \<Rightarrow> error + FileSystemTree \<Rightarrow> error + FileSystemTree" where
  "upd t name r = (case r of Inl e \<Rightarrow> Inl e | Inr d \<Rightarrow> Inr (t(name \<mapsto> DirectoryNode d)))"

text \<open>
  Two paths clash when both name something and the segments of one are an initial part
  of the segments of the other: they are the same place of the tree, or one uses as a
  directory what the other uses as a file. A path without segments adds nothing.
\<close>

definition clash :: "string \<Rightarrow> string \<Rightarrow> bool" where
  "clash p q =
     (segments p \<noteq> [] \<and> segments q \<noteq> [] \<and>
      (prefix (segments p) (segments q) \<or> prefix (segments q) (segments p)))"

fun collision_free :: "(string \<times> 's EditorDocument) list \<Rightarrow> bool" where
  "collision_free [] = True"
| "collision_free (x # xs) =
     (list_all (\<lambda>y. \<not> clash (fst x) (fst y)) xs \<and> collision_free xs)"

text \<open>
  A path is plain when no segment before its last is a property of \<^verbatim>\<open>Object.prototype\<close>
  and no segment is \<^verbatim>\<open>__proto__\<close>: it runs through no inherited name and replaces no
  prototype.
\<close>

definition plain_path :: "string \<Rightarrow> bool" where
  "plain_path p =
     (list_all (\<lambda>name. name \<notin> set Object_prototype_names) (butlast (segments p)) \<and>
      ''__proto__'' \<notin> set (segments p))"

definition plain_paths :: "(string \<times> 's EditorDocument) list \<Rightarrow> bool" where
  "plain_paths files = list_all (\<lambda>entry. plain_path (fst entry)) files"

text \<open>Walking the path from the tree, one of the objects visited has had its prototype
  replaced.\<close>

fun proto_replaced :: "FileSystemTree \<Rightarrow> string list \<Rightarrow> bool" where
  "proto_replaced t [] = (t ''__proto__'' \<noteq> None)"
| "proto_replaced t (name # rest) =
     (t ''__proto__'' \<noteq> None \<or>
      (case t name of
         None \<Rightarrow> False
       | Some (FileNode c) \<Rightarrow> False
       | Some (DirectoryNode d) \<Rightarrow> proto_replaced d rest))"

text \<open>Some path is used as a file and, by another path, as a directory.\<close>

definition prefix_collision :: "(string \<times> 's EditorDocument) list \<Rightarrow> bool" where
  "prefix_collision files =
     list_ex (\<lambda>p. list_ex (\<lambda>q. segments p \<noteq> [] \<and> strict_prefix (segments p) (segments q))
                (map fst files)) (map fst files)"

section \<open>The shell session of \<^verbatim>\<open>run\<close>\<close>

text \<open>
  \<^verbatim>\<open>run\<close> spawns the shell, installs the two callbacks and suspends at
  \<^verbatim>\<open>await jshReady\<close>; a chunk of output or a keystroke is delivered only later, each by
  a call of its callback. The state of a session is the variable \<^verbatim>\<open>isInteractive\<close>,
  whether the promise \<^verbatim>\<open>jshReady\<close> is resolved, whether \<^verbatim>\<open>run\<close> is still suspended at the
  \<^verbatim>\<open>await\<close>, and the two sinks: the calls of \<^verbatim>\<open>shellWriter.write\<close> and of
  \<^verbatim>\<open>terminal.write\<close>, in order.
\<close>

record ShellSession =
  isInteractive :: bool
  jshReady :: bool
  awaitingReady :: bool
  shellInput :: "string list"
  terminalOut :: "string list"

definition session0 :: ShellSession where
  "session0 = \<lparr>isInteractive = False, jshReady = False, awaitingReady = True,
                shellInput = [], terminalOut = []\<rparr>"

definition ESC :: char where "ESC = CHR 0x1B"
definition BEL :: char where "BEL = CHR 0x07"

definition osc_start :: string where
  "osc_start = ESC # '']654;''"

text \<open>
  The regular expression \<^verbatim>\<open>/\x1b\]654;([^\x07]+)\x07/\<close> tried at the start of a string:
  the literal part, then the longest run of characters other than BEL, which must not
  be empty and must be followed by a BEL. A shorter run cannot match, since the character
  after it is not a BEL. The result is the captured group.
\<close>

definition match_here :: "string \<Rightarrow> string option" where
  "match_here s =
     (if prefix osc_start s then
        (let rest = drop (length osc_start) s;
             osc = takeWhile (\<lambda>c. c \<noteq> BEL) rest
         in if osc \<noteq> [] \<and> length osc < length rest then Some osc else None)
      else None)"

text \<open>\<^verbatim>\<open>data.match(...)\<close> without the global flag: the leftmost position where the
  expression matches; \<open>None\<close> is the \<^verbatim>\<open>osc\<close> left \<^verbatim>\<open>undefined\<close>.\<close>

fun match_osc :: "string \<Rightarrow> string option" where
  "match_osc [] = None"
| "match_osc (c # cs) =
     (case match_here (c # cs) of
        Some osc \<Rightarrow> Some osc
      | None \<Rightarrow> match_osc cs)"

text \<open>The \<^verbatim>\<open>write(data)\<close> of the stream the process output is piped to.\<close>

definition output_write :: "string \<Rightarrow> ShellSession \<Rightarrow> ShellSession" where
  "output_write data s =
     (let s1 = (if \<not> isInteractive s then
                  (if match_osc data = Some ''interactive''
                   then s\<lparr>isInteractive := True, jshReady := True\<rparr>
                   else s)
                else s)
      in s1\<lparr>terminalOut := terminalOut s1 @ [data]\<rparr>)"

text \<open>The listener given to \<^verbatim>\<open>terminal.onData\<close>.\<close>

definition onData :: "string \<Rightarrow> ShellSession \<Rightarrow> ShellSession" where
  "onData data s =
     (if isInteractive s then s\<lparr>shellInput := shellInput s @ [data]\<rparr> else s)"

definition bootstrap :: string where
  "bootstrap = ''npm install && npm start'' @ [CHR 0x0A]"

text \<open>
  The rest of \<^verbatim>\<open>run\<close> after \<^verbatim>\<open>await jshReady\<close>. It is a job of the promise: it runs in
  a microtask of its own, some time after the callback in which \<^verbatim>\<open>resolveReady()\<close> was
  called has set \<^verbatim>\<open>isInteractive\<close>, and once only.
\<close>

definition afterReady :: "ShellSession \<Rightarrow> ShellSession" where
  "afterReady s =
     (if awaitingReady s \<and> jshReady s
      then s\<lparr>awaitingReady := False, shellInput := shellInput s @ [bootstrap]\<rparr>
      else s)"

datatype event = Output string | Data string

text \<open>
  A callback with the resumption of \<^verbatim>\<open>run\<close> directly after it: the schedules in which no
  other callback is called between the one that resolves the promise and the microtask
  that resumes \<^verbatim>\<open>run\<close>. The general schedules are those of \<open>run_tasks\<close> below.
\<close>

fun deliver :: "event \<Rightarrow> ShellSession \<Rightarrow> ShellSession" where
  "deliver (Output data) s = afterReady (output_write data s)"
| "deliver (Data data) s = afterReady (onData data s)"

definition session :: "event list \<Rightarrow> ShellSession" where
  "session evs = fold deliver evs session0"



text \<open>
  Schedules in general: a call of one of the two callbacks, or the microtask in which
  \<^verbatim>\<open>run\<close> resumes, in any order. (Where that microtask stands before the promise is
  resolved, or again after \<^verbatim>\<open>run\<close> has resumed, nothing happens.) Nothing in the code
  holds the keystroke listener back between the assignment \<^verbatim>\<open>isInteractive = true\<close>
  and the resumption.
\<close>

datatype task = Chunk string | Key string | Resume

fun perform :: "task \<Rightarrow> ShellSession \<Rightarrow> ShellSession" where
  "perform (Chunk data) s = output_write data s"
| "perform (Key data) s = onData data s"
| "perform Resume s = afterReady s"

definition run_tasks :: "task list \<Rightarrow> ShellSession" where
  "run_tasks ts = fold perform ts session0"

text \<open>The schedule that a sequence of events stands for.\<close>

fun tasks_of :: "event list \<Rightarrow> task list" where
  "tasks_of [] = []"
| "tasks_of (Output data # evs) = Chunk data # Resume # tasks_of evs"
| "tasks_of (Data data # evs) = Key data # Resume # tasks_of evs"

text \<open>The keystrokes among the tasks, in order, and the tasks after the first chunk in
  which the scanner finds the marker.\<close>

fun typed :: "task list \<Rightarrow> string list" where
  "typed [] = []"
| "typed (Chunk data # ts) = typed ts"
| "typed (Key data # ts) = data # typed ts"
| "typed (Resume # ts) = typed ts"

fun after_marker :: "task list \<Rightarrow> task list" where
  "after_marker [] = []"
| "after_marker (Chunk data # ts) =
     (if match_osc data = Some ''interactive'' then ts else after_marker ts)"
| "after_marker (Key data # ts) = after_marker ts"
| "after_marker (Resume # ts) = after_marker ts"

text \<open>The escape sequence \<^verbatim>\<open>ESC ] 654 ; status BEL\<close>, and a chunk that has it at an offset.\<close>

definition osc_marker :: "string \<Rightarrow> string" where
  "osc_marker status = osc_start @ status @ [BEL]"

definition marker_at :: "string \<Rightarrow> nat \<Rightarrow> string \<Rightarrow> bool" where
  "marker_at data i status =
     (status \<noteq> [] \<and> BEL \<notin> set status \<and> prefix (osc_marker status) (drop i data))"


section \<open>The document store of \<^verbatim>\<open>useSimpleEditor\<close>\<close>

text \<open>
  The state of the hook as a render sees it: the documents, the selected file, and the
  calls of \<^verbatim>\<open>webcontainer.fs.writeFile\<close> made so far.
\<close>

record 's EditorState =
  documents :: "string \<Rightarrow> 's EditorDocument option"
  selectedFile :: string
  writeFile_calls :: "(string \<times> string) list"

text \<open>
  \<^verbatim>\<open>setDocuments\<close> is the setter of React's \<^verbatim>\<open>useState\<close>: a call \<^verbatim>\<open>setDocuments(f)\<close> does not
  change the documents, it queues the updater \<open>f\<close>; React applies the queued updaters,
  in order, when it next renders the component.
\<close>

record 's HookState = "'s EditorState" +
  queued :: "((string \<Rightarrow> 's EditorDocument option) \<Rightarrow> (string \<Rightarrow> 's EditorDocument option)) list"

definition render :: "'s HookState \<Rightarrow> 's HookState" where
  "render s = s\<lparr>documents := fold (\<lambda>f prevDocuments. f prevDocuments) (queued s) (documents s),
               queued := []\<rparr>"

text \<open>The spread \<^verbatim>\<open>{...prevDocuments[selectedFile]}\<close>: of \<^verbatim>\<open>undefined\<close>, the empty object.\<close>

definition spread :: "'s EditorDocument option \<Rightarrow> 's EditorDocument" where
  "spread d =
     (case d of
        None \<Rightarrow> \<lparr>filePath = None, loading = None, value = None, scroll = None\<rparr>
      | Some x \<Rightarrow> x)"

text \<open>The updater that \<^verbatim>\<open>onChange\<close> passes to \<^verbatim>\<open>setDocuments\<close>, for the selected file and
  the content of the call.\<close>

definition setValue ::
  "string \<Rightarrow> string \<Rightarrow> (string \<Rightarrow> 's EditorDocument option) \<Rightarrow> (string \<Rightarrow> 's EditorDocument option)" where
  "setValue path content prevDocuments =
     prevDocuments(path \<mapsto> (spread (prevDocuments path))\<lparr>value := Some content\<rparr>)"

text \<open>
  \<^verbatim>\<open>onChange\<close> up to its first \<^verbatim>\<open>await\<close>: the state with the updater queued, and the path
  and content the suspended rest of the function holds. \<^verbatim>\<open>onChange_resume\<close> is that rest,
  run once the promise of the container is fulfilled, in the state of that moment.
\<close>

definition onChange :: "string \<Rightarrow> 's HookState \<Rightarrow> 's HookState \<times> (string \<times> string)" where
  "onChange content s =
     (s\<lparr>queued := queued s @ [setValue (selectedFile s) content]\<rparr>,
      (selectedFile s, content))"

definition onChange_resume :: "string \<times> string \<Rightarrow> 's HookState \<Rightarrow> 's HookState" where
  "onChange_resume held s = s\<lparr>writeFile_calls := writeFile_calls s @ [held]\<rparr>"

text \<open>The updater that \<^verbatim>\<open>onScroll\<close> passes to \<^verbatim>\<open>setDocuments\<close>, as what it makes of the state
  that React applies it to.\<close>

definition onScroll :: "'s \<Rightarrow> 's EditorState \<Rightarrow> 's EditorState" where
  "onScroll sc s =
     s\<lparr>documents := (documents s)(selectedFile s \<mapsto>
          (spread (documents s (selectedFile s)))\<lparr>scroll := Some sc\<rparr>)\<rparr>"

section \<open>Properties of \<^verbatim>\<open>toFileTree\<close>\<close>

lemma file_on_path_empty [simp]: "\<not> file_on_path Map.empty p"
  by (cases p) auto

lemma proto_replaced_empty [simp]: "\<not> proto_replaced Map.empty p"
  by (cases p) auto

lemma file_on_path_append: "file_on_path t p \<Longrightarrow> file_on_path t (p @ q)"
  by (induction t p rule: file_on_path.induct) (auto split: option.splits node.splits)

lemma insertFile_enter:
  "insertFile t (name # n # r) v =
     (case enter t name of
        Inl e \<Rightarrow> Inl e
      | Inr d \<Rightarrow> (case insertFile d (n # r) v of
                   Inl e \<Rightarrow> Inl e
                 | Inr d' \<Rightarrow> Inr (t(name \<mapsto> DirectoryNode d'))))"
  by (simp add: enter_def split: option.splits node.splits)

lemma file_on_path_enter:
  "enter t name = Inr d \<Longrightarrow> file_on_path t (name # rest) = file_on_path d rest"
  by (auto simp: enter_def split: option.splits node.splits if_splits)

lemma proto_replaced_enter:
  "enter t name = Inr d \<Longrightarrow> proto_replaced d rest \<Longrightarrow> proto_replaced t (name # rest)"
  by (auto simp: enter_def split: option.splits node.splits if_splits)

lemma enter_error:
  "enter t name = Inl e \<Longrightarrow>
     file_on_path t [name] \<or> name \<in> set Object_prototype_names \<or> t ''__proto__'' \<noteq> None"
  by (auto simp: enter_def inherited_def split: option.splits node.splits if_splits)

lemma inherited_cong:
  "t' ''__proto__'' = t ''__proto__'' \<Longrightarrow> inherited t' name = inherited t name"
  by (simp add: inherited_def)

lemma enter_cong:
  "t' name = t name \<Longrightarrow> t' ''__proto__'' = t ''__proto__'' \<Longrightarrow> enter t' name = enter t name"
  using inherited_cong [of t' t name] by (simp add: enter_def)

lemma enter_upd_dir [simp]: "enter (t(name \<mapsto> DirectoryNode d)) name = Inr d"
  by (simp add: enter_def)

lemma enter_upd_file [simp]: "enter (t(name \<mapsto> FileNode v)) name = Inl TypeError"
  by (simp add: enter_def)

lemma error_eq [simp]: "(a :: error) = b"
  by (cases a, cases b) simp

lemma file_on_path_upd_dir [simp]:
  "file_on_path (t(name \<mapsto> DirectoryNode d)) (name # rest) = file_on_path d rest"
  by simp

lemma file_on_path_upd_file [simp]:
  "file_on_path (t(name \<mapsto> FileNode v)) (name # rest)"
  by simp

lemma file_on_path_upd_other [simp]:
  "m \<noteq> name \<Longrightarrow> file_on_path (t(name \<mapsto> x)) (m # rest) = file_on_path t (m # rest)"
  by simp

lemma proto_replaced_upd_Nil [simp]:
  "name \<noteq> ''__proto__'' \<Longrightarrow> proto_replaced (t(name \<mapsto> x)) [] = proto_replaced t []"
  by simp

lemma proto_replaced_upd_dir [simp]:
  "name \<noteq> ''__proto__'' \<Longrightarrow>
     proto_replaced (t(name \<mapsto> DirectoryNode d)) (name # rest) =
       (t ''__proto__'' \<noteq> None \<or> proto_replaced d rest)"
  by simp

lemma proto_replaced_upd_file [simp]:
  "name \<noteq> ''__proto__'' \<Longrightarrow>
     proto_replaced (t(name \<mapsto> FileNode v)) (name # rest) = (t ''__proto__'' \<noteq> None)"
  by simp

lemma proto_replaced_upd_other [simp]:
  "name \<noteq> ''__proto__'' \<Longrightarrow> m \<noteq> name \<Longrightarrow>
     proto_replaced (t(name \<mapsto> x)) (m # rest) = proto_replaced t (m # rest)"
  by simp

lemma proto_replaced_slot: "t ''__proto__'' \<noteq> None \<Longrightarrow> proto_replaced t q"
  by (cases q) simp_all

declare insertFile.simps(3) [simp del] file_on_path.simps(2) [simp del]
  proto_replaced.simps [simp del]

lemma insertFile_file_on_path:
  "insertFile t p v = Inr t' \<Longrightarrow> p \<noteq> [] \<Longrightarrow> file_on_path t' p"
proof (induction p arbitrary: t t' rule: induct_list012)
  case 1
  then show ?case by simp
next
  case (2 name)
  then show ?case by auto
next
  case (3 name n r)
  from "3.prems" obtain d d' where d: "enter t name = Inr d"
      "insertFile d (n # r) v = Inr d'" "t' = t(name \<mapsto> DirectoryNode d')"
    by (auto simp: insertFile_enter split: sum.splits)
  from "3.IH"(2) [OF d(2)] have "file_on_path d' (n # r)" by simp
  then show ?case by (subst d(3)) simp
qed

lemma insertFile_keeps_file:
  "file_on_path t q \<Longrightarrow> insertFile t r v = Inr t' \<Longrightarrow> file_on_path t' q"
proof (induction r arbitrary: t t' q rule: induct_list012)
  case 1
  then show ?case by simp
next
  case (2 name)
  from "2.prems"(1) obtain m q' where q: "q = m # q'" by (cases q) auto
  from "2.prems"(2) have t': "t' = t(name \<mapsto> FileNode v)" by simp
  from "2.prems"(1) show ?case unfolding q by (subst t', cases "m = name") simp_all
next
  case (3 name n r)
  from "3.prems" obtain d d' where d: "enter t name = Inr d"
      "insertFile d (n # r) v = Inr d'" "t' = t(name \<mapsto> DirectoryNode d')"
    by (auto simp: insertFile_enter split: sum.splits)
  from "3.prems"(1) obtain m q' where q: "q = m # q'" by (cases q) auto
  show ?case
  proof (cases "m = name")
    case True
    with "3.prems"(1) q have "file_on_path d q'"
      by (simp add: file_on_path_enter [OF d(1)])
    from "3.IH"(2) [OF this d(2)] show ?thesis
      unfolding q True by (subst d(3)) simp
  next
    case False
    with "3.prems"(1) show ?thesis
      unfolding q by (subst d(3)) simp
  qed
qed

lemma insertFile_through_file:
  "file_on_path t p \<Longrightarrow> insertFile t (p @ s # ss) v = Inl TypeError"
proof (induction p arbitrary: t)
  case Nil
  then show ?case by simp
next
  case (Cons name rest)
  obtain n r where nr: "rest @ s # ss = n # r" by (cases rest) auto
  show ?case
  proof (cases "enter t name")
    case (Inl e)
    then show ?thesis
      by (simp add: nr insertFile_enter)
  next
    case (Inr d)
    with Cons.prems have "file_on_path d rest" by (simp add: file_on_path_enter [OF Inr])
    from Cons.IH [OF this] Inr show ?thesis
      by (simp add: nr insertFile_enter)
  qed
qed

lemma insertFile_new_file:
  "insertFile t r v = Inr t' \<Longrightarrow> file_on_path t' q \<Longrightarrow>
     file_on_path t q \<or> (r \<noteq> [] \<and> prefix r q)"
proof (induction r arbitrary: t t' q rule: induct_list012)
  case 1
  then show ?case by simp
next
  case (2 name)
  from "2.prems"(2) obtain m q' where q: "q = m # q'" by (cases q) auto
  from "2.prems"(1) have t': "t' = t(name \<mapsto> FileNode v)" by simp
  have "file_on_path (t(name \<mapsto> FileNode v)) (m # q')"
    using "2.prems"(2) unfolding q by (subst (asm) t')
  then show ?case unfolding q by (cases "m = name") simp_all
next
  case (3 name n r)
  from "3.prems" obtain d d' where d: "enter t name = Inr d"
      "insertFile d (n # r) v = Inr d'" "t' = t(name \<mapsto> DirectoryNode d')"
    by (auto simp: insertFile_enter split: sum.splits)
  from "3.prems"(2) obtain m q' where q: "q = m # q'" by (cases q) auto
  show ?case
  proof (cases "m = name")
    case True
    have "file_on_path (t(name \<mapsto> DirectoryNode d')) (m # q')"
      using "3.prems"(2) unfolding q by (subst (asm) d(3))
    with True have "file_on_path d' q'"
      by simp
    from "3.IH"(2) [OF d(2) this] show ?thesis
      using q True by (auto simp: file_on_path_enter [OF d(1)])
  next
    case False
    have "file_on_path (t(name \<mapsto> DirectoryNode d')) (m # q')"
      using "3.prems"(2) unfolding q by (subst (asm) d(3))
    with False show ?thesis
      unfolding q by simp
  qed
qed

lemma insertFile_keeps_protos:
  "insertFile t r v = Inr t' \<Longrightarrow> ''__proto__'' \<notin> set r \<Longrightarrow> proto_replaced t' q \<Longrightarrow>
     proto_replaced t q"
proof (induction r arbitrary: t t' q rule: induct_list012)
  case 1
  then show ?case by simp
next
  case (2 name)
  from "2.prems"(2) have ne: "name \<noteq> ''__proto__''" by auto
  from "2.prems"(1) have t': "t' = t(name \<mapsto> FileNode v)" by simp
  have *: "proto_replaced (t(name \<mapsto> FileNode v)) q"
    using "2.prems"(3) by (subst (asm) t')
  show ?case
  proof (cases q)
    case Nil
    with * ne show ?thesis by simp
  next
    case (Cons m q')
    with * ne show ?thesis
      by (cases "m = name") (simp_all add: proto_replaced_slot)
  qed
next
  case (3 name n r)
  from "3.prems"(2) have ne: "name \<noteq> ''__proto__''" and rest: "''__proto__'' \<notin> set (n # r)"
    by auto
  from "3.prems" obtain d d' where d: "enter t name = Inr d"
      "insertFile d (n # r) v = Inr d'" "t' = t(name \<mapsto> DirectoryNode d')"
    by (auto simp: insertFile_enter split: sum.splits)
  have *: "proto_replaced (t(name \<mapsto> DirectoryNode d')) q"
    using "3.prems"(3) by (subst (asm) d(3))
  show ?case
  proof (cases q)
    case Nil
    with * ne show ?thesis by simp
  next
    case (Cons m q')
    show ?thesis
    proof (cases "m = name")
      case True
      with * Cons ne have "t ''__proto__'' \<noteq> None \<or> proto_replaced d' q'" by simp
      then show ?thesis
      proof
        assume "t ''__proto__'' \<noteq> None"
        then show ?thesis by (rule proto_replaced_slot)
      next
        assume "proto_replaced d' q'"
        from "3.IH"(2) [OF d(2) rest this] have "proto_replaced d q'" .
        from proto_replaced_enter [OF d(1) this] show ?thesis
          unfolding Cons True .
      qed
    next
      case False
      with * Cons ne show ?thesis by simp
    qed
  qed
qed

lemma insertFile_error:
  "insertFile t q v = Inl e \<Longrightarrow>
     (\<exists>p. strict_prefix p q \<and> file_on_path t p) \<or>
     (\<exists>name\<in>set (butlast q). name \<in> set Object_prototype_names) \<or>
     proto_replaced t q"
proof (induction q arbitrary: t rule: induct_list012)
  case 1
  then show ?case by simp
next
  case (2 name)
  then show ?case by simp
next
  case (3 name n r)
  show ?case
  proof (cases "enter t name")
    case (Inl e')
    from enter_error [OF this] consider "file_on_path t [name]"
      | "name \<in> set Object_prototype_names" | "t ''__proto__'' \<noteq> None"
      by blast
    then show ?thesis
    proof cases
      case 1
      moreover have "strict_prefix [name] (name # n # r)" by simp
      ultimately show ?thesis by blast
    next
      case 2
      then show ?thesis by simp
    next
      case 3
      then show ?thesis by (simp add: proto_replaced_slot)
    qed
  next
    case (Inr d)
    with "3.prems" have "insertFile d (n # r) v = Inl e"
      by (auto simp: insertFile_enter split: sum.splits)
    from "3.IH"(2) [OF this] consider
      p where "strict_prefix p (n # r)" "file_on_path d p"
      | "\<exists>name\<in>set (butlast (n # r)). name \<in> set Object_prototype_names"
      | "proto_replaced d (n # r)"
      by blast
    then show ?thesis
    proof cases
      case 1
      then have "strict_prefix (name # p) (name # n # r)" "file_on_path t (name # p)"
        by (auto simp: file_on_path_enter [OF Inr])
      then show ?thesis by blast
    next
      case 2
      then show ?thesis by auto
    next
      case 3
      from proto_replaced_enter [OF Inr this] show ?thesis by simp
    qed
  qed
qed

lemma ins_Inl [simp]: "ins p v (Inl e) = Inl e"
  by (simp add: ins_def)

lemma ins_Inr [simp]: "ins p v (Inr t) = insertFile t p v"
  by (simp add: ins_def)

lemma addFile_ins: "addFile entry = ins (segments (fst entry)) (value (snd entry))"
  by (rule ext) (simp add: addFile_def ins_def)

lemma fold_addFile_Inl [simp]: "fold addFile xs (Inl e) = Inl e"
  by (induction xs) (simp_all add: addFile_def)

lemma upd_simps [simp]:
  "upd t name (Inl e) = Inl e"
  "upd t name (Inr d) = Inr (t(name \<mapsto> DirectoryNode d))"
  by (simp_all add: upd_def)

lemma insertFile_upd:
  "insertFile t (name # n # r) v = upd t name (ins (n # r) v (enter t name))"
  by (simp add: insertFile_enter upd_def ins_def split: sum.splits)

lemma insertFile_one_key:
  "\<exists>x. \<forall>t'. t' a = t a \<and> t' ''__proto__'' = t ''__proto__'' \<longrightarrow>
     insertFile t' (a # p) v = (case x of Inl e \<Rightarrow> Inl e | Inr n \<Rightarrow> Inr (t'(a \<mapsto> n)))"
proof (cases p)
  case Nil
  have "insertFile t' (a # p) v =
      (case Inr (FileNode v) of Inl e \<Rightarrow> Inl e | Inr n \<Rightarrow> Inr (t'(a \<mapsto> n)))"
    for t' :: FileSystemTree
    by (simp add: Nil)
  then show ?thesis by blast
next
  case (Cons n r)
  let ?x = "map_sum id DirectoryNode (ins (n # r) v (enter t a))"
  have "insertFile t' (a # p) v = (case ?x of Inl e \<Rightarrow> Inl e | Inr n \<Rightarrow> Inr (t'(a \<mapsto> n)))"
    if "t' a = t a \<and> t' ''__proto__'' = t ''__proto__''" for t' :: FileSystemTree
  proof -
    from that have e: "enter t' a = enter t a" by (intro enter_cong) simp_all
    have "insertFile t' (a # p) v = upd t' a (ins (n # r) v (enter t a))"
      unfolding Cons insertFile_upd e ..
    also have "\<dots> = (case ?x of Inl e \<Rightarrow> Inl e | Inr n \<Rightarrow> Inr (t'(a \<mapsto> n)))"
      by (cases "ins (n # r) v (enter t a)") simp_all
    finally show ?thesis .
  qed
  then show ?thesis by blast
qed

lemma insertFile_other_key:
  assumes ab: "a \<noteq> b" and a: "a \<noteq> ''__proto__''" and b: "b \<noteq> ''__proto__''"
  shows "ins (b # q) w (insertFile t (a # p) v) = ins (a # p) v (insertFile t (b # q) w)"
proof -
  from insertFile_one_key [of a t p v] obtain x where
    x: "\<And>t'. t' a = t a \<Longrightarrow> t' ''__proto__'' = t ''__proto__'' \<Longrightarrow>
      insertFile t' (a # p) v = (case x of Inl e \<Rightarrow> Inl e | Inr n \<Rightarrow> Inr (t'(a \<mapsto> n)))"
    by blast
  from insertFile_one_key [of b t q w] obtain y where
    y: "\<And>t'. t' b = t b \<Longrightarrow> t' ''__proto__'' = t ''__proto__'' \<Longrightarrow>
      insertFile t' (b # q) w = (case y of Inl e \<Rightarrow> Inl e | Inr n \<Rightarrow> Inr (t'(b \<mapsto> n)))"
    by blast
  show ?thesis
  proof (cases x)
    case (Inl e)
    with x [of t] y [of t] x [of "t(b \<mapsto> n)" for n] ab a b show ?thesis
      by (cases y) simp_all
  next
    case xr: (Inr n1)
    show ?thesis
    proof (cases y)
      case (Inl e)
      with xr x [of t] y [of t] y [of "t(a \<mapsto> n1)"] ab a b show ?thesis by simp
    next
      case (Inr n2)
      with xr x [of t] y [of t] y [of "t(a \<mapsto> n1)"] x [of "t(b \<mapsto> n2)"] ab a b
      show ?thesis
        by (simp add: fun_upd_twist)
    qed
  qed
qed

lemma insertFile_commute:
  "\<not> prefix p q \<Longrightarrow> \<not> prefix q p \<Longrightarrow> ''__proto__'' \<notin> set p \<Longrightarrow> ''__proto__'' \<notin> set q \<Longrightarrow>
     ins q w (insertFile t p v) = ins p v (insertFile t q w)"
proof (induction p arbitrary: q t)
  case Nil
  then show ?case by simp
next
  case (Cons a p')
  from Cons.prems obtain b q' where q: "q = b # q'" by (cases q) auto
  from Cons.prems q have np': "''__proto__'' \<notin> set p'" "''__proto__'' \<notin> set q'"
    and ne: "a \<noteq> ''__proto__''" "b \<noteq> ''__proto__''"
    by auto
  show ?case
  proof (cases "a = b")
    case False
    then show ?thesis unfolding q using ne by (rule insertFile_other_key)
  next
    case True
    with Cons.prems q obtain n r m s where p': "p' = n # r" and q': "q' = m # s"
      by (cases p'; cases q') auto
    from Cons.prems q True have np: "\<not> prefix p' q'" "\<not> prefix q' p'" by auto
    show ?thesis
    proof (cases "enter t a")
      case (Inl e)
      then show ?thesis unfolding q p' q' True [symmetric] by (simp add: insertFile_upd)
    next
      case (Inr d)
      from Cons.IH [OF np np', of d]
      have IH: "ins q' w (insertFile d p' v) = ins p' v (insertFile d q' w)" .
      show ?thesis
      proof (cases "insertFile d p' v")
        case l: (Inl e)
        show ?thesis
        proof (cases "insertFile d q' w")
          case (Inl e')
          with l Inr show ?thesis unfolding q p' q' True [symmetric] by (simp add: insertFile_upd)
        next
          case r: (Inr d2)
          with l IH have "insertFile d2 p' v = Inl e" by simp
          with l r Inr show ?thesis unfolding q p' q' True [symmetric] by (simp add: insertFile_upd)
        qed
      next
        case r1: (Inr d1)
        show ?thesis
        proof (cases "insertFile d q' w")
          case (Inl e')
          with r1 IH have "insertFile d1 q' w = Inl e'" by simp
          with r1 Inl Inr show ?thesis unfolding q p' q' True [symmetric] by (simp add: insertFile_upd)
        next
          case r2: (Inr d2)
          with r1 IH have "insertFile d1 q' w = insertFile d2 p' v" by simp
          with r1 r2 Inr show ?thesis unfolding q p' q' True [symmetric]
            by (cases "insertFile d2 (n # r) v") (simp_all add: insertFile_upd)
        qed
      qed
    qed
  qed
qed

lemma fold_addFile_keeps_file:
  "fold addFile ys acc = Inr t' \<Longrightarrow>
     \<exists>t. acc = Inr t \<and> (file_on_path t p \<longrightarrow> file_on_path t' p)"
proof (induction ys arbitrary: acc)
  case Nil
  then show ?case by simp
next
  case (Cons y ys)
  from Cons.IH [of "addFile y acc"] Cons.prems obtain t1 where
    t1: "addFile y acc = Inr t1" "file_on_path t1 p \<longrightarrow> file_on_path t' p"
    by auto
  then obtain t where t: "acc = Inr t" "insertFile t (segments (fst y)) (value (snd y)) = Inr t1"
    by (cases acc) (auto simp: addFile_def)
  with t1 insertFile_keeps_file [OF _ t(2), of p] show ?case by auto
qed

lemma clash_sym: "clash p q \<Longrightarrow> clash q p"
  by (auto simp: clash_def)

lemma collision_free_pairs:
  "collision_free xs \<Longrightarrow> x \<in> set xs \<Longrightarrow> y \<in> set xs \<Longrightarrow> x \<noteq> y \<Longrightarrow> \<not> clash (fst x) (fst y)"
  by (induction xs) (auto simp: list_all_iff dest: clash_sym)

lemma collision_free_snoc:
  "collision_free (xs @ [x]) \<Longrightarrow> collision_free xs \<and> (\<forall>y\<in>set xs. \<not> clash (fst y) (fst x))"
  by (induction xs) (auto simp: list_all_iff)

lemma ins_Nil [simp]: "ins [] v acc = acc"
  by (cases acc) simp_all

lemma ins_commute:
  "\<not> prefix p q \<Longrightarrow> \<not> prefix q p \<Longrightarrow> ''__proto__'' \<notin> set p \<Longrightarrow> ''__proto__'' \<notin> set q \<Longrightarrow>
     ins q w (ins p v acc) = ins p v (ins q w acc)"
  by (cases acc) (simp_all add: insertFile_commute)

lemma addFile_commute:
  assumes "x = y \<or> \<not> clash (fst x) (fst y)"
    and "plain_path (fst x)" and "plain_path (fst y)"
  shows "addFile x \<circ> addFile y = addFile y \<circ> addFile x"
proof (cases "x = y")
  case True
  then show ?thesis by simp
next
  case False
  with assms have nc: "\<not> clash (fst x) (fst y)" by simp
  from assms(2,3) have np: "''__proto__'' \<notin> set (segments (fst x))"
    "''__proto__'' \<notin> set (segments (fst y))"
    by (simp_all add: plain_path_def)
  show ?thesis
  proof (rule ext)
    fix acc
    show "(addFile x \<circ> addFile y) acc = (addFile y \<circ> addFile x) acc"
    proof (cases "segments (fst x) = [] \<or> segments (fst y) = []")
      case True
      then show ?thesis by (auto simp: addFile_ins)
    next
      case False
      with nc have "\<not> prefix (segments (fst x)) (segments (fst y))"
        "\<not> prefix (segments (fst y)) (segments (fst x))"
        by (auto simp: clash_def)
      with np show ?thesis by (simp add: addFile_ins ins_commute)
    qed
  qed
qed

lemma toFileTree_snoc: "toFileTree (xs @ [x]) = addFile x (toFileTree xs)"
  by (simp add: toFileTree_def)

lemma toFileTree_succeeds:
  "collision_free xs \<Longrightarrow> plain_paths xs \<Longrightarrow>
     \<exists>t. toFileTree xs = Inr t \<and>
       (\<forall>q. \<not> proto_replaced t q) \<and>
       (\<forall>q. file_on_path t q \<longrightarrow>
          (\<exists>y\<in>set xs. segments (fst y) \<noteq> [] \<and> prefix (segments (fst y)) q))"
proof (induction xs rule: rev_induct)
  case Nil
  then show ?case by (simp add: toFileTree_def)
next
  case (snoc x xs)
  from collision_free_snoc [OF snoc.prems(1)] have cf: "collision_free xs"
    and nc: "\<And>y. y \<in> set xs \<Longrightarrow> \<not> clash (fst y) (fst x)"
    by auto
  from snoc.prems(2) have pl: "plain_paths xs" and px: "plain_path (fst x)"
    by (simp_all add: plain_paths_def)
  from snoc.IH [OF cf pl] obtain t where t: "toFileTree xs = Inr t"
    and protos: "\<And>q. \<not> proto_replaced t q"
    and inv: "\<And>q. file_on_path t q \<Longrightarrow>
      \<exists>y\<in>set xs. segments (fst y) \<noteq> [] \<and> prefix (segments (fst y)) q"
    by blast
  let ?r = "insertFile t (segments (fst x)) (value (snd x))"
  have step: "toFileTree (xs @ [x]) = ?r"
    by (simp add: toFileTree_snoc t addFile_def)
  show ?case
  proof (cases ?r)
    case (Inl e)
    from insertFile_error [OF this] protos px obtain p where
      p: "strict_prefix p (segments (fst x))" "file_on_path t p"
      by (auto simp: plain_path_def list_all_iff)
    from inv [OF p(2)] obtain y where y: "y \<in> set xs" "segments (fst y) \<noteq> []"
      "prefix (segments (fst y)) p"
      by blast
    from y(3) p(1) have "prefix (segments (fst y)) (segments (fst x))"
      by (meson prefix_order.order_trans strict_prefix_def prefix_order.less_imp_le)
    moreover from this y(2) have "segments (fst x) \<noteq> []" by auto
    ultimately have "clash (fst y) (fst x)" using y(2) by (simp add: clash_def)
    with nc [OF y(1)] show ?thesis by simp
  next
    case (Inr t')
    have "\<exists>y\<in>set (xs @ [x]). segments (fst y) \<noteq> [] \<and> prefix (segments (fst y)) q"
      if "file_on_path t' q" for q
    proof -
      from insertFile_new_file [OF Inr that]
      show ?thesis using inv [of q] by auto
    qed
    moreover have "\<not> proto_replaced t' q" for q
      using insertFile_keeps_protos [OF Inr, of q] px protos [of q]
      by (auto simp: plain_path_def)
    ultimately show ?thesis using step Inr by simp
  qed
qed

subsection \<open>The example of the specification\<close>

text \<open>
  Claim C8. Building a tree from the mapping \<^verbatim>\<open>{'/src/index.js': 'A', '/pkg.json': 'B'}\<close>
  yields a tree with exactly two top-level entries: a directory \<^verbatim>\<open>src\<close> that contains
  (only) a file \<^verbatim>\<open>index.js\<close> with contents \<^verbatim>\<open>'A'\<close>, and a file \<^verbatim>\<open>pkg.json\<close> with contents
  \<^verbatim>\<open>'B'\<close>. The other properties of the two documents are arbitrary.
\<close>

theorem toFileTree_example:
  "\<exists>t. toFileTree
          [(''/src/index.js'', \<lparr>filePath = f1, loading = l1, value = Some ''A'', scroll = s1\<rparr>),
           (''/pkg.json'', \<lparr>filePath = f2, loading = l2, value = Some ''B'', scroll = s2\<rparr>)] = Inr t
      \<and> dom t = {''src'', ''pkg.json''}
      \<and> t ''src'' = Some (DirectoryNode [''index.js'' \<mapsto> FileNode (Some ''A'')])
      \<and> t ''pkg.json'' = Some (FileNode (Some ''B''))"
  by (simp add: toFileTree_def addFile_def segments_def insertFile.simps inherited_def
      Object_prototype_names_def) auto

subsection \<open>A path used as a file and as a directory\<close>

text \<open>
  Claim C3 says that whenever a path used as a file is also used as a directory by
  another path, the builder rejects the mapping instead of letting one reading overwrite
  the other. That fails when the longer path is enumerated first: for
  \<^verbatim>\<open>{'/a/b': 'X', '/a': 'Y'}\<close> the builder returns a tree in which the file \<^verbatim>\<open>a\<close> has
  replaced the directory \<^verbatim>\<open>a\<close> and its file \<^verbatim>\<open>b\<close>.
\<close>

theorem toFileTree_file_replaces_directory:
  "prefix_collision [(''/a/b'', doc ''X'' :: unit EditorDocument), (''/a'', doc ''Y'')]
   \<and> toFileTree [(''/a/b'', doc ''X'' :: unit EditorDocument), (''/a'', doc ''Y'')]
       = Inr [''a'' \<mapsto> FileNode (Some ''Y'')]"
  by (simp add: prefix_collision_def toFileTree_def addFile_def segments_def doc_def
      insertFile.simps inherited_def Object_prototype_names_def)

text \<open>
  Claim C3, amended. When a path that names a file is enumerated before a path that uses
  it as a directory (the segments of the first are a proper initial part of the segments
  of the second), the builder fails with a \<^verbatim>\<open>TypeError\<close> and returns no tree, whatever
  the other entries of the mapping are.
\<close>

theorem toFileTree_file_then_directory:
  assumes files: "files = xs @ (p, dp) # ys @ (q, dq) # zs"
    and ne: "segments p \<noteq> []"
    and pre: "strict_prefix (segments p) (segments q)"
  shows "toFileTree files = Inl TypeError"
proof -
  from pre obtain s ss where q: "segments q = segments p @ s # ss"
    by (auto simp: strict_prefix_def prefix_def) (metis list.exhaust)
  let ?a = "fold addFile (xs @ (p, dp) # ys) (Inr Map.empty)"
  have "addFile (q, dq) ?a = Inl TypeError"
  proof (cases ?a)
    case (Inl e)
    then show ?thesis by (simp add: addFile_def)
  next
    case (Inr t3)
    then have "fold addFile ys (addFile (p, dp) (fold addFile xs (Inr Map.empty))) = Inr t3"
      by simp
    from fold_addFile_keeps_file [OF this, of "segments p"] obtain t2 where
      t2: "addFile (p, dp) (fold addFile xs (Inr Map.empty)) = Inr t2"
        "file_on_path t2 (segments p) \<longrightarrow> file_on_path t3 (segments p)"
      by blast
    from t2(1) obtain t1 where "insertFile t1 (segments p) (value dp) = Inr t2"
      by (cases "fold addFile xs (Inr Map.empty)") (auto simp: addFile_def)
    from insertFile_file_on_path [OF this ne] t2(2) have "file_on_path t3 (segments p)"
      by simp
    from insertFile_through_file [OF this, of s ss "value dq"] Inr show ?thesis
      by (simp add: addFile_def q)
  qed
  then show ?thesis
    unfolding toFileTree_def files by simp
qed

theorem toFileTree_file_then_directory_witness:
  "segments ''/a'' \<noteq> [] \<and> strict_prefix (segments ''/a'') (segments ''/a/b/c'')
   \<and> toFileTree [(''/src/index.js'', doc ''A'' :: unit EditorDocument), (''/a'', doc ''X''),
        (''/a/b/c'', doc ''Y'')] = Inl TypeError"
  using toFileTree_file_then_directory
    [of _ "[(''/src/index.js'', doc ''A'')]" "''/a''" "doc ''X''" "[]" "''/a/b/c''" "doc ''Y''" "[]"]
  by (simp add: segments_def)

subsection \<open>The order of enumeration\<close>

text \<open>
  Claim C5 says that two mappings with the same entries, enumerated in different orders,
  give structurally equal trees. That fails when two keys name the same place:
  \<^verbatim>\<open>'/a'\<close> and \<^verbatim>\<open>'/a/'\<close> have the same segments, and the entry enumerated last decides the
  contents of the file \<^verbatim>\<open>a\<close>. It fails as well for paths that meet the prototype of the
  tree objects: with \<^verbatim>\<open>'/__proto__'\<close> enumerated before \<^verbatim>\<open>'/file/x'\<close> the builder throws,
  in the other order it returns a tree; and on \<^verbatim>\<open>'/constructor/x'\<close> alone it throws, so
  that no tree is produced in any order.
\<close>

theorem toFileTree_order_matters:
  "mset [(''/a'', doc ''X'' :: unit EditorDocument), (''/a/'', doc ''Y'')]
     = mset [(''/a/'', doc ''Y''), (''/a'', doc ''X'')]
   \<and> toFileTree [(''/a'', doc ''X'' :: unit EditorDocument), (''/a/'', doc ''Y'')]
       = Inr [''a'' \<mapsto> FileNode (Some ''Y'')]
   \<and> toFileTree [(''/a/'', doc ''Y''), (''/a'', doc ''X'' :: unit EditorDocument)]
       = Inr [''a'' \<mapsto> FileNode (Some ''X'')]
   \<and> toFileTree [(''/a'', doc ''X'' :: unit EditorDocument), (''/a/'', doc ''Y'')] \<noteq>
       toFileTree [(''/a/'', doc ''Y''), (''/a'', doc ''X'' :: unit EditorDocument)]
   \<and> toFileTree [(''/__proto__'', doc ''X'' :: unit EditorDocument), (''/file/x'', doc ''Y'')]
       = Inl TypeError
   \<and> toFileTree [(''/file/x'', doc ''Y''), (''/__proto__'', doc ''X'' :: unit EditorDocument)]
       = Inr [''file'' \<mapsto> DirectoryNode [''x'' \<mapsto> FileNode (Some ''Y'')],
              ''__proto__'' \<mapsto> FileNode (Some ''X'')]
   \<and> toFileTree [(''/constructor/x'', doc ''X'' :: unit EditorDocument)] = Inl TypeError"
  by (simp add: toFileTree_def addFile_def segments_def doc_def insertFile.simps fun_eq_iff
      inherited_def Object_prototype_names_def)

text \<open>
  Claim C5, amended. For two enumerations of the same entries in which no two paths
  clash (no two paths that have segments are such that the segments of one are an initial
  part of, or equal to, the segments of the other) and every path is plain (no segment
  before its last is a property name of \<^verbatim>\<open>Object.prototype\<close>, and no segment is
  \<^verbatim>\<open>__proto__\<close>), the builder succeeds on both and produces the same tree.
\<close>

theorem toFileTree_order_independent:
  assumes "mset xs = mset ys" and "collision_free xs" and "plain_paths xs"
  shows "\<exists>t. toFileTree xs = Inr t \<and> toFileTree ys = Inr t"
proof -
  have "addFile x \<circ> addFile y = addFile y \<circ> addFile x"
    if "x \<in> set xs" "y \<in> set xs" for x y :: "string \<times> 'a EditorDocument"
  proof (rule addFile_commute)
    from collision_free_pairs [OF assms(2) that]
    show "x = y \<or> \<not> clash (fst x) (fst y)" by blast
    from assms(3) that show "plain_path (fst x)" "plain_path (fst y)"
      by (simp_all add: plain_paths_def list_all_iff)
  qed
  from fold_multiset_equiv [OF this assms(1)]
  have "toFileTree ys = toFileTree xs"
    by (simp add: toFileTree_def)
  with toFileTree_succeeds [OF assms(2,3)] show ?thesis by auto
qed

theorem toFileTree_order_independent_witness:
  "mset [(''/src/index.js'', doc ''A'' :: unit EditorDocument),
         (''/src/assets/logo.svg'', doc ''L''), (''/package.json'', doc ''B'')]
     = mset [(''/package.json'', doc ''B''), (''/src/index.js'', doc ''A''),
         (''/src/assets/logo.svg'', doc ''L'')]
   \<and> collision_free [(''/src/index.js'', doc ''A'' :: unit EditorDocument),
         (''/src/assets/logo.svg'', doc ''L''), (''/package.json'', doc ''B'')]
   \<and> plain_paths [(''/src/index.js'', doc ''A'' :: unit EditorDocument),
         (''/src/assets/logo.svg'', doc ''L''), (''/package.json'', doc ''B'')]
   \<and> (\<exists>t. toFileTree [(''/src/index.js'', doc ''A'' :: unit EditorDocument),
             (''/src/assets/logo.svg'', doc ''L''), (''/package.json'', doc ''B'')] = Inr t
        \<and> toFileTree [(''/package.json'', doc ''B''),
             (''/src/index.js'', doc ''A'' :: unit EditorDocument),
             (''/src/assets/logo.svg'', doc ''L'')] = Inr t)"
proof -
  have m: "mset [(''/src/index.js'', doc ''A'' :: unit EditorDocument),
         (''/src/assets/logo.svg'', doc ''L''), (''/package.json'', doc ''B'')]
     = mset [(''/package.json'', doc ''B''), (''/src/index.js'', doc ''A''),
         (''/src/assets/logo.svg'', doc ''L'')]"
    by (simp add: add_mset_commute)
  have c: "collision_free [(''/src/index.js'', doc ''A'' :: unit EditorDocument),
         (''/src/assets/logo.svg'', doc ''L''), (''/package.json'', doc ''B'')]"
    by (simp add: clash_def segments_def)
  have p: "plain_paths [(''/src/index.js'', doc ''A'' :: unit EditorDocument),
         (''/src/assets/logo.svg'', doc ''L''), (''/package.json'', doc ''B'')]"
    by (simp add: plain_paths_def plain_path_def segments_def Object_prototype_names_def)
  from toFileTree_order_independent [OF m c p] m c p show ?thesis by blast
qed

section \<open>Properties of the shell session\<close>













subsection \<open>The gate on keystrokes\<close>



subsection \<open>The bootstrap command\<close>

lemma session_tasks: "fold deliver evs s = fold perform (tasks_of evs) s"
  by (induction evs arbitrary: s rule: tasks_of.induct) simp_all

lemma session_run_tasks: "session evs = run_tasks (tasks_of evs)"
  by (simp add: session_def run_tasks_def session_tasks)

lemma resumed_tasks:
  "isInteractive s \<Longrightarrow> \<not> awaitingReady s \<Longrightarrow>
     shellInput (fold perform ts s) = shellInput s @ typed ts"
proof (induction ts arbitrary: s)
  case Nil
  then show ?case by simp
next
  case (Cons t ts)
  have "isInteractive (perform t s) \<and> \<not> awaitingReady (perform t s)
      \<and> shellInput (perform t s) = shellInput s @ typed [t]"
    using Cons.prems by (cases t) (simp_all add: output_write_def onData_def afterReady_def Let_def)
  with Cons.IH [of "perform t s"] show ?case by (cases t) simp_all
qed

lemma ready_tasks:
  "isInteractive s \<Longrightarrow> jshReady s \<Longrightarrow> awaitingReady s \<Longrightarrow>
     shellInput (fold perform ts s) = shellInput s @
       (if Resume \<in> set ts
        then typed (takeWhile (\<lambda>t. t \<noteq> Resume) ts) @ bootstrap # typed (dropWhile (\<lambda>t. t \<noteq> Resume) ts)
        else typed ts)"
proof (induction ts arbitrary: s)
  case Nil
  then show ?case by simp
next
  case (Cons t ts)
  show ?case
  proof (cases t)
    case (Chunk data)
    with Cons.prems have "isInteractive (perform t s)" "jshReady (perform t s)"
      "awaitingReady (perform t s)" "shellInput (perform t s) = shellInput s"
      by (simp_all add: output_write_def Let_def)
    with Cons.IH [of "perform t s"] Chunk show ?thesis by simp
  next
    case (Key data)
    with Cons.prems have "isInteractive (perform t s)" "jshReady (perform t s)"
      "awaitingReady (perform t s)" "shellInput (perform t s) = shellInput s @ [data]"
      by (simp_all add: onData_def)
    with Cons.IH [of "perform t s"] Key show ?thesis by simp
  next
    case Resume
    with Cons.prems have "isInteractive (perform t s)" "\<not> awaitingReady (perform t s)"
      "shellInput (perform t s) = shellInput s @ [bootstrap]"
      by (simp_all add: afterReady_def)
    with resumed_tasks [of "perform t s" ts] Resume show ?thesis by simp
  qed
qed

lemma waiting_tasks:
  "\<not> isInteractive s \<Longrightarrow> \<not> jshReady s \<Longrightarrow> awaitingReady s \<Longrightarrow>
     shellInput (fold perform ts s) = shellInput s @
       (if Resume \<in> set (after_marker ts)
        then typed (takeWhile (\<lambda>t. t \<noteq> Resume) (after_marker ts)) @
          bootstrap # typed (dropWhile (\<lambda>t. t \<noteq> Resume) (after_marker ts))
        else typed (after_marker ts))"
proof (induction ts arbitrary: s)
  case Nil
  then show ?case by simp
next
  case (Cons t ts)
  show ?case
  proof (cases t)
    case (Chunk data)
    show ?thesis
    proof (cases "match_osc data = Some ''interactive''")
      case True
      with Cons.prems Chunk have "isInteractive (perform t s)" "jshReady (perform t s)"
        "awaitingReady (perform t s)" "shellInput (perform t s) = shellInput s"
        by (simp_all add: output_write_def Let_def)
      with ready_tasks [of "perform t s" ts] Chunk True show ?thesis by simp
    next
      case False
      with Cons.prems Chunk have "\<not> isInteractive (perform t s)" "\<not> jshReady (perform t s)"
        "awaitingReady (perform t s)" "shellInput (perform t s) = shellInput s"
        by (simp_all add: output_write_def Let_def)
      with Cons.IH [of "perform t s"] Chunk False show ?thesis by simp
    qed
  next
    case (Key data)
    with Cons.prems have "perform t s = s" by (simp add: onData_def)
    with Cons.IH [of s] Cons.prems Key show ?thesis by simp
  next
    case Resume
    with Cons.prems have "perform t s = s" by (simp add: afterReady_def)
    with Cons.IH [of s] Cons.prems Resume show ?thesis by simp
  qed
qed

text \<open>
  Claim C2 says that the bootstrap command is the first write to the input of the process
  after the marker is observed: no keystroke accepted after the marker is written before
  it. That fails: the callback that finds the marker sets \<^verbatim>\<open>isInteractive\<close> at once, and
  the command is written only when \<^verbatim>\<open>run\<close> resumes, in a later microtask. A keystroke
  delivered in between, when the session is interactive already, is written first.
\<close>

theorem keystroke_before_bootstrap:
  "isInteractive (run_tasks [Chunk (osc_marker ''interactive'')])
   \<and> shellInput (run_tasks [Chunk (osc_marker ''interactive'')]) = []
   \<and> shellInput (run_tasks [Chunk (osc_marker ''interactive''), Key ''k'', Resume])
       = [''k'', bootstrap]"
  by (simp add: run_tasks_def session0_def afterReady_def output_write_def onData_def Let_def
      match_here_def osc_marker_def osc_start_def ESC_def BEL_def)

text \<open>
  Claim C2, amended. In every schedule, nothing is written to the input of the process
  before the chunk in which the marker is observed. The bootstrap command is written once,
  when \<^verbatim>\<open>run\<close> resumes after that chunk: the keystrokes delivered between the chunk and
  the resumption are written before it, the keystrokes delivered after the resumption
  after it, each in the order of delivery, and nothing else is written. In particular,
  when \<^verbatim>\<open>run\<close> has resumed and no keystroke was delivered between the chunk and the
  resumption, the command is the first write.
\<close>

theorem bootstrap_at_resume:
  "shellInput (run_tasks ts) =
     (if Resume \<in> set (after_marker ts)
      then typed (takeWhile (\<lambda>t. t \<noteq> Resume) (after_marker ts)) @
        bootstrap # typed (dropWhile (\<lambda>t. t \<noteq> Resume) (after_marker ts))
      else typed (after_marker ts))
   \<and> (Resume \<in> set (after_marker ts) \<longrightarrow> typed (takeWhile (\<lambda>t. t \<noteq> Resume) (after_marker ts)) = [] \<longrightarrow>
        shellInput (run_tasks ts) = bootstrap # typed (dropWhile (\<lambda>t. t \<noteq> Resume) (after_marker ts)))"
  using waiting_tasks [of session0 ts]
  by (simp add: run_tasks_def session0_def)

theorem bootstrap_at_resume_witness:
  "Resume \<in> set (after_marker [Key ''ls'', Chunk ''boot'', Chunk (osc_marker ''interactive''),
      Chunk ''$ '', Resume, Key ''p'', Chunk ''out'', Key ''w''])
   \<and> typed (takeWhile (\<lambda>t. t \<noteq> Resume) (after_marker [Key ''ls'', Chunk ''boot'',
      Chunk (osc_marker ''interactive''), Chunk ''$ '', Resume, Key ''p'', Chunk ''out'', Key ''w''])) = []
   \<and> shellInput (run_tasks [Key ''ls'', Chunk ''boot'', Chunk (osc_marker ''interactive''),
      Chunk ''$ '', Resume, Key ''p'', Chunk ''out'', Key ''w'']) = [bootstrap, ''p'', ''w'']"
proof -
  let ?ts = "[Key ''ls'', Chunk ''boot'', Chunk (osc_marker ''interactive''),
      Chunk ''$ '', Resume, Key ''p'', Chunk ''out'', Key ''w'']"
  have m1: "match_osc ''boot'' \<noteq> Some ''interactive''"
    by (simp add: match_here_def osc_start_def ESC_def)
  have m2: "match_osc (osc_marker ''interactive'') = Some ''interactive''"
    by (simp add: match_here_def osc_marker_def osc_start_def ESC_def BEL_def)
  have am: "after_marker ?ts = [Chunk ''$ '', Resume, Key ''p'', Chunk ''out'', Key ''w'']"
    using m1 m2 by simp
  have a: "Resume \<in> set (after_marker ?ts)" unfolding am by simp
  have b: "typed (takeWhile (\<lambda>t. t \<noteq> Resume) (after_marker ?ts)) = []" unfolding am by simp
  from bootstrap_at_resume [of ?ts] a b
  have "shellInput (run_tasks ?ts) = bootstrap # typed (dropWhile (\<lambda>t. t \<noteq> Resume) (after_marker ?ts))"
    by blast
  then have "shellInput (run_tasks ?ts) = [bootstrap, ''p'', ''w'']" unfolding am by simp
  with a b show ?thesis by blast
qed

subsection \<open>Chunks reach the terminal\<close>

lemma ex_chunk:
  "match_osc (''hello'' @ ESC # '']654;interactive'' @ BEL # ''world'') = Some ''interactive''"
  by (simp add: match_here_def osc_start_def ESC_def BEL_def)

text \<open>
  Claim C4. Every chunk given to the scanner, in whatever state and with or without the
  marker, is written to the terminal as it is. The chunk
  \<^verbatim>\<open>"hello\x1b]654;interactive\x07world"\<close> makes a fresh session interactive, and the
  terminal receives the whole chunk.
\<close>

theorem output_forwarded:
  "terminalOut (deliver (Output data) s) = terminalOut s @ [data]
   \<and> isInteractive (session [Output (''hello'' @ ESC # '']654;interactive'' @ BEL # ''world'')])
   \<and> terminalOut (session [Output (''hello'' @ ESC # '']654;interactive'' @ BEL # ''world'')])
      = [''hello'' @ ESC # '']654;interactive'' @ BEL # ''world'']"
proof -
  have "terminalOut (deliver (Output data) s) = terminalOut s @ [data]"
    by (simp add: afterReady_def output_write_def Let_def)
  moreover have "isInteractive (session [Output (''hello'' @ ESC # '']654;interactive'' @ BEL # ''world'')])"
    using ex_chunk by (simp add: session_def session0_def afterReady_def output_write_def Let_def)
  moreover have "terminalOut (session [Output (''hello'' @ ESC # '']654;interactive'' @ BEL # ''world'')])
      = [''hello'' @ ESC # '']654;interactive'' @ BEL # ''world'']"
    using ex_chunk by (simp add: session_def session0_def afterReady_def output_write_def Let_def)
  ultimately show ?thesis by blast
qed

subsection \<open>What the scanner takes for the marker\<close>

lemma match_here_marker:
  "match_here s = Some st \<longleftrightarrow> st \<noteq> [] \<and> BEL \<notin> set st \<and> prefix (osc_marker st) s"
proof
  assume m: "match_here s = Some st"
  then have p: "prefix osc_start s" by (simp add: match_here_def split: if_splits)
  define rest where "rest = drop (length osc_start) s"
  from p have s: "s = osc_start @ rest"
    by (auto simp: rest_def prefix_def)
  from m p have st: "st = takeWhile (\<lambda>c. c \<noteq> BEL) rest" "st \<noteq> []" "length st < length rest"
    by (auto simp: match_here_def Let_def rest_def split: if_splits)
  from st(1) have nb: "BEL \<notin> set st"
    by (auto dest: set_takeWhileD)
  let ?d = "dropWhile (\<lambda>c. c \<noteq> BEL) rest"
  have split: "rest = st @ ?d"
    by (simp add: st(1))
  have "length rest = length st + length ?d"
    by (subst split) simp
  with st(3) have ne: "?d \<noteq> []" by auto
  from hd_dropWhile [OF ne] have "hd ?d = BEL" by simp
  with ne obtain post where "?d = BEL # post"
    by (cases ?d) auto
  with split have "rest = st @ BEL # post" by simp
  with s have "prefix (osc_marker st) s"
    by (simp add: osc_marker_def prefix_def)
  with st(2) nb show "st \<noteq> [] \<and> BEL \<notin> set st \<and> prefix (osc_marker st) s" by simp
next
  assume a: "st \<noteq> [] \<and> BEL \<notin> set st \<and> prefix (osc_marker st) s"
  then obtain post where s: "s = osc_start @ st @ BEL # post"
    by (auto simp: osc_marker_def prefix_def)
  from a have "\<forall>x\<in>set st. x \<noteq> BEL" by auto
  then have "takeWhile (\<lambda>c. c \<noteq> BEL) (st @ BEL # post) = st"
    by (simp add: takeWhile_tail)
  with a show "match_here s = Some st"
    by (simp add: match_here_def s Let_def)
qed

lemma match_here_None:
  "match_here (drop j data) = None \<longleftrightarrow> (\<forall>st. \<not> marker_at data j st)"
proof -
  have "match_here (drop j data) = None \<longleftrightarrow> (\<forall>st. match_here (drop j data) \<noteq> Some st)"
    by auto
  then show ?thesis by (simp add: match_here_marker marker_at_def)
qed

lemma match_here_Nil [simp]: "match_here [] = None"
  by (simp add: match_here_def osc_start_def)

lemma match_osc_leftmost:
  "match_here (drop i data) = Some st \<Longrightarrow> (\<forall>j<i. match_here (drop j data) = None) \<Longrightarrow>
     match_osc data = Some st"
proof (induction data arbitrary: i)
  case Nil
  then show ?case by simp
next
  case (Cons c cs)
  show ?case
  proof (cases i)
    case 0
    with Cons.prems show ?thesis by simp
  next
    case (Suc k)
    from Cons.prems(2) Suc have "match_here (drop 0 (c # cs)) = None" by blast
    then have "match_here (c # cs) = None" by simp
    moreover from Cons.prems Suc have "match_here (drop k cs) = Some st" by simp
    moreover have "\<forall>j<k. match_here (drop j cs) = None"
    proof (intro allI impI)
      fix j assume "j < k"
      with Suc have "Suc j < i" by simp
      with Cons.prems(2) have "match_here (drop (Suc j) (c # cs)) = None" by blast
      then show "match_here (drop j cs) = None" by simp
    qed
    ultimately show ?thesis using Cons.IH [of k] by simp
  qed
qed

lemma match_osc_sublist:
  "match_osc data = Some st \<Longrightarrow> sublist (osc_marker st) data"
proof (induction data)
  case Nil
  then show ?case by simp
next
  case (Cons c cs)
  show ?case
  proof (cases "match_here (c # cs)")
    case None
    with Cons have "sublist (osc_marker st) cs" by simp
    then show ?thesis by (simp add: sublist_Cons_right)
  next
    case (Some st')
    with Cons.prems have "match_here (c # cs) = Some st" by simp
    then have "prefix (osc_marker st) (c # cs)" by (simp add: match_here_marker)
    then show ?thesis by (simp add: sublist_Cons_right)
  qed
qed

lemma output_write_flag:
  "\<not> isInteractive s \<Longrightarrow>
     isInteractive (deliver (Output data) s) = (match_osc data = Some ''interactive'')"
  by (simp add: afterReady_def output_write_def Let_def)

text \<open>
  Claim C6 says that a chunk which contains a sequence \<^verbatim>\<open>ESC ] 654 ; status BEL\<close> makes
  the session interactive exactly when the status is \<^verbatim>\<open>interactive\<close>. That fails for a
  chunk with two such sequences: the chunk \<^verbatim>\<open>ESC]654;promptBEL ESC]654;interactiveBEL\<close>
  (without the space) has the sequence with status \<^verbatim>\<open>interactive\<close> at offset 13, and the
  session stays not interactive, since only the first match is looked at.
\<close>

theorem later_marker_ignored:
  "marker_at (osc_marker ''prompt'' @ osc_marker ''interactive'') 13 ''interactive''
   \<and> \<not> isInteractive (deliver (Output (osc_marker ''prompt'' @ osc_marker ''interactive'')) session0)"
  by (simp add: marker_at_def osc_marker_def osc_start_def ESC_def BEL_def
      afterReady_def output_write_def Let_def session0_def match_here_def)

text \<open>
  Claim C6, amended. For a session that is not yet interactive and a chunk that
  contains a sequence \<^verbatim>\<open>ESC ] 654 ; status BEL\<close> (status not empty, without BEL), the chunk
  makes the session interactive if and only if the status of the leftmost such sequence
  of the chunk is \<^verbatim>\<open>interactive\<close>.
\<close>

theorem leftmost_marker_decides:
  assumes "\<not> isInteractive s"
    and "marker_at data i status"
    and "\<forall>j<i. \<forall>st. \<not> marker_at data j st"
  shows "isInteractive (deliver (Output data) s) = (status = ''interactive'')"
proof -
  from assms(2) have "match_here (drop i data) = Some status"
    by (simp add: match_here_marker marker_at_def)
  moreover from assms(3) have "\<forall>j<i. match_here (drop j data) = None"
    by (simp add: match_here_None)
  ultimately have "match_osc data = Some status" by (rule match_osc_leftmost)
  with output_write_flag [OF assms(1), of data] show ?thesis by simp
qed

theorem leftmost_marker_decides_witness:
  "\<not> isInteractive session0
   \<and> marker_at (''$ '' @ osc_marker ''interactive'' @ ''~'') 2 ''interactive''
   \<and> isInteractive (deliver (Output (''$ '' @ osc_marker ''interactive'' @ ''~'')) session0)"
proof -
  let ?data = "''$ '' @ osc_marker ''interactive'' @ ''~''"
  have a: "\<not> isInteractive session0" by (simp add: session0_def)
  have b: "marker_at ?data 2 ''interactive''"
    by (simp add: marker_at_def osc_marker_def osc_start_def ESC_def BEL_def)
  have c: "\<forall>j<2. \<forall>st. \<not> marker_at ?data j st"
  proof (intro allI impI)
    fix j :: nat and st
    assume "j < 2"
    then consider "j = 0" | "j = 1" by linarith
    then show "\<not> marker_at ?data j st"
      by cases (simp_all add: marker_at_def osc_marker_def osc_start_def ESC_def)
  qed
  from leftmost_marker_decides [OF a b c] a b show ?thesis by simp
qed

text \<open>
  Claim C9. The marker is detected only inside one chunk: when neither of two
  consecutive chunks contains the whole sequence \<^verbatim>\<open>ESC ] 654 ; interactive BEL\<close> but their
  concatenation does, a session that was not interactive is still not interactive after
  both chunks.
\<close>

theorem split_marker_unseen:
  assumes "\<not> isInteractive s"
    and "\<not> sublist (osc_marker ''interactive'') c1"
    and "\<not> sublist (osc_marker ''interactive'') c2"
    and "sublist (osc_marker ''interactive'') (c1 @ c2)"
  shows "\<not> isInteractive (deliver (Output c2) (deliver (Output c1) s))"
proof -
  from assms(2) have "match_osc c1 \<noteq> Some ''interactive''"
    by (auto dest: match_osc_sublist)
  with output_write_flag [OF assms(1), of c1]
  have "\<not> isInteractive (deliver (Output c1) s)"
    by simp
  moreover from assms(3) have "match_osc c2 \<noteq> Some ''interactive''"
    by (auto dest: match_osc_sublist)
  ultimately show ?thesis
    using output_write_flag [of "deliver (Output c1) s" c2] by simp
qed

theorem split_marker_unseen_witness:
  "\<not> isInteractive session0
   \<and> \<not> sublist (osc_marker ''interactive'') (ESC # '']654;inter'')
   \<and> \<not> sublist (osc_marker ''interactive'') (''active'' @ [BEL])
   \<and> sublist (osc_marker ''interactive'') ((ESC # '']654;inter'') @ (''active'' @ [BEL]))
   \<and> \<not> isInteractive (deliver (Output (''active'' @ [BEL])) (deliver (Output (ESC # '']654;inter'')) session0))"
proof -
  have a: "\<not> isInteractive session0" by (simp add: session0_def)
  have b: "\<not> sublist (osc_marker ''interactive'') (ESC # '']654;inter'')"
    by (simp add: osc_marker_def osc_start_def ESC_def BEL_def sublist_Cons_right)
  have c: "\<not> sublist (osc_marker ''interactive'') (''active'' @ [BEL])"
    by (simp add: osc_marker_def osc_start_def ESC_def BEL_def sublist_Cons_right)
  have d: "sublist (osc_marker ''interactive'') ((ESC # '']654;inter'') @ (''active'' @ [BEL]))"
    by (simp add: osc_marker_def osc_start_def)
  from split_marker_unseen [OF a b c d] a b c d show ?thesis by blast
qed

section \<open>Properties of the document store\<close>

text \<open>
  Claim C7 says that the store is updated synchronously, before the write-through is
  dispatched, so that reading the path back yields the new content. That fails:
  \<^verbatim>\<open>setDocuments\<close> only queues the update. After \<^verbatim>\<open>onChange\<close> the documents are as they
  were, and when the rest of \<^verbatim>\<open>onChange\<close> runs before the next render, \<^verbatim>\<open>writeFile\<close> is
  called with the new content while the store still holds the old one.
\<close>

theorem writeFile_before_render:
  "documents (fst (onChange ''new''
      (\<lparr>documents = [''/src/index.js'' \<mapsto> doc ''old''], selectedFile = ''/src/index.js'',
        writeFile_calls = [], queued = []\<rparr> :: unit HookState))) ''/src/index.js'' = Some (doc ''old'')
   \<and> writeFile_calls (onChange_resume
        (snd (onChange ''new''
          (\<lparr>documents = [''/src/index.js'' \<mapsto> doc ''old''], selectedFile = ''/src/index.js'',
            writeFile_calls = [], queued = []\<rparr> :: unit HookState)))
        (fst (onChange ''new''
          (\<lparr>documents = [''/src/index.js'' \<mapsto> doc ''old''], selectedFile = ''/src/index.js'',
            writeFile_calls = [], queued = []\<rparr> :: unit HookState))))
       = [(''/src/index.js'', ''new'')]
   \<and> documents (onChange_resume
        (snd (onChange ''new''
          (\<lparr>documents = [''/src/index.js'' \<mapsto> doc ''old''], selectedFile = ''/src/index.js'',
            writeFile_calls = [], queued = []\<rparr> :: unit HookState)))
        (fst (onChange ''new''
          (\<lparr>documents = [''/src/index.js'' \<mapsto> doc ''old''], selectedFile = ''/src/index.js'',
            writeFile_calls = [], queued = []\<rparr> :: unit HookState)))) ''/src/index.js''
       = Some (doc ''old'')"
  by (simp add: onChange_def onChange_resume_def)

text \<open>
  Claim C7, amended. For every selected path and every content: \<^verbatim>\<open>onChange\<close>, up to its
  first \<^verbatim>\<open>await\<close>, queues the update of the store and leaves the documents, the selection
  and the calls of \<^verbatim>\<open>writeFile\<close> as they are. Once the next render has applied the queue,
  whether the rest of \<^verbatim>\<open>onChange\<close> has run before it or not, the store holds a document for
  the path whose value is the new content. The suspended rest of the call holds that path
  and that content, and when it runs, in whatever later state, it calls \<^verbatim>\<open>writeFile\<close>
  once, with that path and that content, and leaves the documents and the queue as they
  are.
\<close>

theorem onChange_queued_round_trip:
  "(\<exists>d. documents (render (fst (onChange content s))) (selectedFile s) = Some d
        \<and> value d = Some content)
   \<and> (\<exists>d. documents (render (onChange_resume (snd (onChange content s)) (fst (onChange content s))))
          (selectedFile s) = Some d \<and> value d = Some content)
   \<and> documents (fst (onChange content s)) = documents s
   \<and> queued (fst (onChange content s)) = queued s @ [setValue (selectedFile s) content]
   \<and> selectedFile (fst (onChange content s)) = selectedFile s
   \<and> writeFile_calls (fst (onChange content s)) = writeFile_calls s
   \<and> snd (onChange content s) = (selectedFile s, content)
   \<and> writeFile_calls (onChange_resume (snd (onChange content s)) s')
       = writeFile_calls s' @ [(selectedFile s, content)]
   \<and> documents (onChange_resume (snd (onChange content s)) s') = documents s'
   \<and> queued (onChange_resume (snd (onChange content s)) s') = queued s'"
  by (simp add: onChange_def onChange_resume_def render_def setValue_def)

text \<open>
  Claim C10. A scroll event on the selected file, which has a document in the store,
  changes only the scroll position of that document: its value, its loading flag and its
  file path are unchanged, the documents of all other paths are unchanged, and so are
  the selection and the calls of \<^verbatim>\<open>writeFile\<close>.
\<close>

theorem onScroll_frame:
  assumes "documents s (selectedFile s) = Some d"
  shows "(\<exists>d'. documents (onScroll sc s) (selectedFile s) = Some d'
            \<and> scroll d' = Some sc \<and> value d' = value d \<and> loading d' = loading d
            \<and> filePath d' = filePath d)
     \<and> (\<forall>p. p \<noteq> selectedFile s \<longrightarrow> documents (onScroll sc s) p = documents s p)
     \<and> selectedFile (onScroll sc s) = selectedFile s
     \<and> writeFile_calls (onScroll sc s) = writeFile_calls s"
  using assms by (simp add: onScroll_def spread_def)

theorem onScroll_frame_witness:
  "documents \<lparr>documents = [''/src/index.js'' \<mapsto> doc ''A'', ''/package.json'' \<mapsto> doc ''B''],
       selectedFile = ''/src/index.js'', writeFile_calls = []\<rparr> ''/src/index.js'' = Some (doc ''A'')
   \<and> documents (onScroll (3 :: nat, 0 :: nat)
        \<lparr>documents = [''/src/index.js'' \<mapsto> doc ''A'', ''/package.json'' \<mapsto> doc ''B''],
         selectedFile = ''/src/index.js'', writeFile_calls = []\<rparr>) ''/src/index.js''
       = Some \<lparr>filePath = None, loading = None, value = Some ''A'', scroll = Some (3, 0)\<rparr>
   \<and> documents (onScroll (3 :: nat, 0 :: nat)
        \<lparr>documents = [''/src/index.js'' \<mapsto> doc ''A'', ''/package.json'' \<mapsto> doc ''B''],
         selectedFile = ''/src/index.js'', writeFile_calls = []\<rparr>) ''/package.json''
       = Some (doc ''B'')"
  using onScroll_frame [of "\<lparr>documents = [''/src/index.js'' \<mapsto> doc ''A'', ''/package.json'' \<mapsto> doc ''B''],
       selectedFile = ''/src/index.js'', writeFile_calls = []\<rparr>" "doc ''A''" "(3 :: nat, 0 :: nat)"]
  by (auto simp: doc_def)

end
